theory Spec2Isabelle
  imports Main "HOL-Library.Word"
begin

unbundle bit_operations_syntax

section \<open>Go string helpers (package strings)\<close>

text \<open>Go strings are byte sequences; they are modelled as \<open>string\<close> (a list of 8-bit
  characters). The three helpers below follow the standard library's definitions.\<close>

definition HasPrefix :: "string \<Rightarrow> string \<Rightarrow> bool" where
  "HasPrefix s pre = (length pre \<le> length s \<and> take (length pre) s = pre)"

definition HasSuffix :: "string \<Rightarrow> string \<Rightarrow> bool" where
  "HasSuffix s suf = (length suf \<le> length s \<and> drop (length s - length suf) s = suf)"

definition TrimSuffix :: "string \<Rightarrow> string \<Rightarrow> string" where
  "TrimSuffix s suf = (if HasSuffix s suf then take (length s - length suf) s else s)"

section \<open>pkg/router: the route table\<close>

record Route =
  Path :: string
  ServiceName :: string
  Methods :: "string list"

type_synonym Router = "Route list"

definition router_New :: Router where
  "router_New = []"

definition AddRoute :: "string \<Rightarrow> string \<Rightarrow> string list \<Rightarrow> Router \<Rightarrow> Router" where
  "AddRoute path serviceName methods r =
     r @ [\<lparr>Path = path, ServiceName = serviceName, Methods = methods\<rparr>]"

definition trim :: "string \<Rightarrow> string" where
  "trim s = (if s = ''/'' then s else TrimSuffix s ''/'')"

definition matchPath :: "string \<Rightarrow> string \<Rightarrow> bool" where
  "matchPath requestPath routePath =
     (if HasSuffix routePath ''*'' then
        (let base = TrimSuffix routePath ''*'' in
         if HasSuffix base ''/'' then
           (let trimmed = TrimSuffix base ''/'' in
            requestPath = trimmed \<or> HasPrefix requestPath base)
         else HasPrefix requestPath base)
      else trim requestPath = trim routePath)"

section \<open>internal/loadbalancer: backend pools\<close>

text \<open>A pool holds pointers to backends (\<open>[]*Backend\<close>), and \<open>MarkHealthy\<close>,
  \<open>MarkUnhealthy\<close> and \<open>LeastConnection.Add\<close> write through the pointer. Backends
  therefore live in an explicit store indexed by address; a pool is a list of addresses.
  Pointers in a pool are taken to be non-nil. \<open>URL\<close> stands for \<open>URL.String()\<close>.
  \<open>Connections\<close> is an \<open>int64\<close>: a 64-bit word read through \<open>sint\<close>.\<close>

type_synonym addr = nat

record Backend =
  URL :: string
  Weight :: int
  Active :: bool
  Connections :: "64 word"

type_synonym heap = "addr \<Rightarrow> Backend"

record RoundRobin =
  rr_backends :: "addr list"
  current :: "64 word"

record LeastConnection =
  lc_backends :: "addr list"

definition NewRoundRobin :: RoundRobin where
  "NewRoundRobin = \<lparr>rr_backends = [], current = 0\<rparr>"

definition NewLeastConnection :: LeastConnection where
  "NewLeastConnection = \<lparr>lc_backends = []\<rparr>"

definition RoundRobin_Add :: "addr \<Rightarrow> RoundRobin \<Rightarrow> heap \<Rightarrow> RoundRobin \<times> heap" where
  "RoundRobin_Add backend rr h = (rr\<lparr>rr_backends := rr_backends rr @ [backend]\<rparr>, h)"

text \<open>The loop of \<open>Remove\<close>: drop the first backend whose URL string equals the argument.\<close>

fun remove_url :: "heap \<Rightarrow> string \<Rightarrow> addr list \<Rightarrow> addr list" where
  "remove_url h u [] = []"
| "remove_url h u (b # bs) = (if URL (h b) = u then bs else b # remove_url h u bs)"

definition RoundRobin_Remove :: "string \<Rightarrow> RoundRobin \<Rightarrow> heap \<Rightarrow> RoundRobin" where
  "RoundRobin_Remove u rr h = rr\<lparr>rr_backends := remove_url h u (rr_backends rr)\<rparr>"

text \<open>\<open>Next\<close> returns the selected pointer (\<open>None\<close> for \<open>nil\<close>) and the pool with the
  counter advanced by \<open>atomic.AddUint64\<close>, which wraps at \<open>2^64\<close>.\<close>

definition RoundRobin_Next :: "RoundRobin \<Rightarrow> heap \<Rightarrow> addr option \<times> RoundRobin" where
  "RoundRobin_Next rr h =
     (if length (rr_backends rr) = 0 then (None, rr)
      else
        let activeBackends = filter (\<lambda>b. Active (h b)) (rr_backends rr) in
        if length activeBackends = 0 then (None, rr)
        else
          let n = current rr + 1 in
          (Some (activeBackends ! (unat n mod length activeBackends)), rr\<lparr>current := n\<rparr>))"

definition MarkHealthy :: "addr \<Rightarrow> heap \<Rightarrow> heap" where
  "MarkHealthy backend h = h(backend := (h backend)\<lparr>Active := True\<rparr>)"

definition MarkUnhealthy :: "addr \<Rightarrow> heap \<Rightarrow> heap" where
  "MarkUnhealthy backend h = h(backend := (h backend)\<lparr>Active := False\<rparr>)"

definition LeastConnection_Add ::
  "addr \<Rightarrow> LeastConnection \<Rightarrow> heap \<Rightarrow> LeastConnection \<times> heap" where
  "LeastConnection_Add backend lc h =
     (let h' = h(backend := (h backend)\<lparr>Active := True\<rparr>) in
      (lc\<lparr>lc_backends := lc_backends lc @ [backend]\<rparr>, h'))"

definition LeastConnection_Remove ::
  "string \<Rightarrow> LeastConnection \<Rightarrow> heap \<Rightarrow> LeastConnection" where
  "LeastConnection_Remove u lc h = lc\<lparr>lc_backends := remove_url h u (lc_backends lc)\<rparr>"

text \<open>\<open>int64(^uint64(0) >> 1)\<close>, the largest \<open>int64\<close>.\<close>

definition maxInt64 :: "64 word" where
  "maxInt64 = drop_bit 1 (NOT 0)"

text \<open>The scan of \<open>LeastConnection.Next\<close>, carrying \<open>selected\<close> and \<open>minConnections\<close>.\<close>

fun lc_scan :: "heap \<Rightarrow> addr list \<Rightarrow> addr option \<Rightarrow> 64 word \<Rightarrow> addr option" where
  "lc_scan h [] selected minConnections = selected"
| "lc_scan h (b # bs) selected minConnections =
     (if Active (h b) \<and> sint (Connections (h b)) < sint minConnections
      then lc_scan h bs (Some b) (Connections (h b))
      else lc_scan h bs selected minConnections)"

definition LeastConnection_Next :: "LeastConnection \<Rightarrow> heap \<Rightarrow> addr option \<times> heap" where
  "LeastConnection_Next lc h =
     (case lc_scan h (lc_backends lc) None maxInt64 of
        None \<Rightarrow> (None, h)
      | Some b \<Rightarrow> (Some b, h(b := (h b)\<lparr>Connections := Connections (h b) + 1\<rparr>)))"

definition ReleaseConnection :: "addr \<Rightarrow> heap \<Rightarrow> heap" where
  "ReleaseConnection backend h = h(backend := (h backend)\<lparr>Connections := Connections (h backend) - 1\<rparr>)"

text \<open>The interface \<open>LoadBalancer\<close> with its two implementations.\<close>

datatype LoadBalancer = RR RoundRobin | LC LeastConnection

fun lb_Add :: "addr \<Rightarrow> LoadBalancer \<Rightarrow> heap \<Rightarrow> LoadBalancer \<times> heap" where
  "lb_Add b (RR rr) h = (case RoundRobin_Add b rr h of (rr', h') \<Rightarrow> (RR rr', h'))"
| "lb_Add b (LC lc) h = (case LeastConnection_Add b lc h of (lc', h') \<Rightarrow> (LC lc', h'))"

fun lb_Next :: "LoadBalancer \<Rightarrow> heap \<Rightarrow> addr option \<times> LoadBalancer \<times> heap" where
  "lb_Next (RR rr) h = (case RoundRobin_Next rr h of (r, rr') \<Rightarrow> (r, RR rr', h))"
| "lb_Next (LC lc) h = (case LeastConnection_Next lc h of (r, h') \<Rightarrow> (r, LC lc, h'))"

text \<open>Concrete backends and stores used in the examples below.\<close>

definition idle_backend :: Backend where
  "idle_backend = \<lparr>URL = ''http://10.0.0.1:9001'', Weight = 1, Active = False, Connections = 0\<rparr>"

definition saturated_backend :: Backend where
  "saturated_backend =
     \<lparr>URL = ''http://10.0.0.1:9001'', Weight = 1, Active = True, Connections = maxInt64\<rparr>"

definition idle_heap :: heap where
  "idle_heap = (\<lambda>a. idle_backend)"

definition saturated_heap :: heap where
  "saturated_heap = (\<lambda>a. saturated_backend)"

section \<open>internal/discovery: the service registry\<close>

text \<open>A Go slice value is either \<open>nil\<close> or a (possibly empty) sequence: the registry tests
  \<open>s.services[k] == nil\<close>, which distinguishes them. \<open>None\<close> is the nil slice. The
  backing arrays of the registry's slices never leave it (every read copies), so a slice is
  modelled by its contents. A Go map is a reference: \<open>Metadata\<close> holds the address of a
  string map in a store of its own (\<open>None\<close> for the nil map), and copying a
  \<open>ServiceInstance\<close> copies that address.\<close>

type_synonym 'a slice = "'a list option"

record ServiceInstance =
  ID :: string
  Service :: string
  Address :: string
  Port :: int
  Metadata :: "addr option"

type_synonym services_map = "string \<rightharpoonup> ServiceInstance slice"

type_synonym mheap = "addr \<Rightarrow> (string \<rightharpoonup> string)"

text \<open>Ranging over a slice, and indexing a map (the zero value, \<open>nil\<close>, for a missing key).\<close>

fun elems :: "'a slice \<Rightarrow> 'a list" where
  "elems None = []"
| "elems (Some xs) = xs"

definition lookup :: "services_map \<Rightarrow> string \<Rightarrow> ServiceInstance slice" where
  "lookup m k = (case m k of None \<Rightarrow> None | Some v \<Rightarrow> v)"

text \<open>The queued gossip payloads: the JSON objects \<open>{action: register, instance}\<close> and
  \<open>{action: deregister, service_id}\<close>.\<close>

datatype broadcast = RegisterMsg ServiceInstance | DeregisterMsg string

datatype error = MarshalError | NotFound string

text \<open>\<open>json.Marshal\<close> of these payloads (strings, an integer, a string map) cannot fail; the
  error branch of the callers is kept.\<close>

definition json_Marshal :: "broadcast \<Rightarrow> error + broadcast" where
  "json_Marshal m = Inr m"

text \<open>Subscribers are handles; \<open>delivered\<close> logs each \<open>go fn(services)\<close> with the snapshot
  passed to it.\<close>

record Service =
  services :: services_map
  broadcasts :: "broadcast list"
  onChange :: "nat list"
  delivered :: "(nat \<times> services_map) list"

definition New :: Service where
  "New = \<lparr>services = Map.empty, broadcasts = [], onChange = [], delivered = []\<rparr>"

text \<open>The upsert loop shared by \<open>Register\<close>, \<open>NotifyMsg\<close> and \<open>MergeRemoteState\<close>:
  overwrite the first instance with the same id, else append.\<close>

fun upsert :: "ServiceInstance \<Rightarrow> ServiceInstance list \<Rightarrow> ServiceInstance list" where
  "upsert instance [] = [instance]"
| "upsert instance (inst # rest) =
     (if ID inst = ID instance then instance # rest else inst # upsert instance rest)"

definition upsert_service :: "ServiceInstance \<Rightarrow> services_map \<Rightarrow> services_map" where
  "upsert_service instance m =
     (let m1 = (if lookup m (Service instance) = None
                then m(Service instance \<mapsto> Some []) else m)
      in m1(Service instance \<mapsto> Some (upsert instance (elems (lookup m1 (Service instance))))))"

text \<open>The snapshot made by \<open>notifyListeners\<close> and \<open>GetAllServices\<close>: every key, each
  slice copied into a fresh (non-nil) one.\<close>

definition copy_services :: "services_map \<Rightarrow> services_map" where
  "copy_services m = (\<lambda>k. case m k of None \<Rightarrow> None | Some v \<Rightarrow> Some (Some (elems v)))"

definition notifyListeners :: "Service \<Rightarrow> Service" where
  "notifyListeners s =
     s\<lparr>delivered := delivered s @ map (\<lambda>fn. (fn, copy_services (services s))) (onChange s)\<rparr>"

definition Register :: "ServiceInstance \<Rightarrow> Service \<Rightarrow> error option \<times> Service" where
  "Register instance s =
     (let s1 = s\<lparr>services := upsert_service instance (services s)\<rparr> in
      case json_Marshal (RegisterMsg instance) of
        Inl err \<Rightarrow> (Some err, s1)
      | Inr data \<Rightarrow> (None, notifyListeners (s1\<lparr>broadcasts := broadcasts s1 @ [data]\<rparr>)))"

text \<open>The two nested loops of \<open>Deregister\<close>. Go ranges over a map in an unspecified
  order: \<open>order\<close> is the order in which this run visits the keys.\<close>

fun find_ID :: "string \<Rightarrow> ServiceInstance list \<Rightarrow> nat option" where
  "find_ID serviceID [] = None"
| "find_ID serviceID (inst # rest) =
     (if ID inst = serviceID then Some 0 else map_option Suc (find_ID serviceID rest))"

fun scan_services :: "services_map \<Rightarrow> string \<Rightarrow> string list \<Rightarrow> (string \<times> nat) option" where
  "scan_services m serviceID [] = None"
| "scan_services m serviceID (service # order) =
     (case find_ID serviceID (elems (lookup m service)) of
        Some i \<Rightarrow> Some (service, i)
      | None \<Rightarrow> scan_services m serviceID order)"

text \<open>\<open>append(instances[:i], instances[i+1:]...)\<close>\<close>

definition remove_at :: "nat \<Rightarrow> 'a list \<Rightarrow> 'a list" where
  "remove_at i xs = take i xs @ drop (Suc i) xs"

definition Deregister :: "string \<Rightarrow> string list \<Rightarrow> Service \<Rightarrow> error option \<times> Service" where
  "Deregister serviceID order s =
     (case scan_services (services s) serviceID order of
        Some (service, i) \<Rightarrow>
          (let s1 = s\<lparr>services := (services s)(service \<mapsto>
                       Some (remove_at i (elems (lookup (services s) service))))\<rparr> in
           case json_Marshal (DeregisterMsg serviceID) of
             Inl err \<Rightarrow> (Some err, s1)
           | Inr data \<Rightarrow> (None, notifyListeners (s1\<lparr>broadcasts := broadcasts s1 @ [data]\<rparr>)))
      | None \<Rightarrow> (Some (NotFound serviceID), s))"

definition GetInstances :: "string \<Rightarrow> Service \<Rightarrow> ServiceInstance slice" where
  "GetInstances service s =
     (case lookup (services s) service of None \<Rightarrow> Some [] | Some instances \<Rightarrow> Some instances)"

definition GetAllServices :: "Service \<Rightarrow> services_map" where
  "GetAllServices s = copy_services (services s)"

definition Subscribe :: "nat \<Rightarrow> Service \<Rightarrow> Service" where
  "Subscribe fn s = s\<lparr>onChange := onChange s @ [fn]\<rparr>"

text \<open>A gossip message after \<open>json.Unmarshal\<close> into a generic map: \<open>msg_action\<close> is
  the \<open>action\<close> entry when it is a string; \<open>msg_instance\<close> is the \<open>instance\<close> entry
  when it is an object that decodes into a \<open>ServiceInstance\<close> without error;
  \<open>msg_service_id\<close> is the \<open>service_id\<close> entry when it is a string. A buffer that does not parse is \<open>None\<close>.\<close>

record message =
  msg_action :: "string option"
  msg_instance :: "ServiceInstance option"
  msg_service_id :: "string option"

definition NotifyMsg :: "message option \<Rightarrow> string list \<Rightarrow> Service \<Rightarrow> Service" where
  "NotifyMsg msg order s =
     (case msg of
        None \<Rightarrow> s
      | Some message \<Rightarrow>
          (case msg_action message of
             None \<Rightarrow> s
           | Some act \<Rightarrow>
               if act = ''register'' then
                 (case msg_instance message of
                    Some inst \<Rightarrow> notifyListeners (s\<lparr>services := upsert_service inst (services s)\<rparr>)
                  | None \<Rightarrow> s)
               else if act = ''deregister'' then
                 (case msg_service_id message of
                    Some serviceID \<Rightarrow>
                      (case scan_services (services s) serviceID order of
                         Some (service, i) \<Rightarrow>
                           notifyListeners (s\<lparr>services := (services s)(service \<mapsto>
                             Some (remove_at i (elems (lookup (services s) service))))\<rparr>)
                       | None \<Rightarrow> s)
                  | None \<Rightarrow> s)
               else s))"

text \<open>\<open>MergeRemoteState\<close>: the decoded snapshot (\<open>None\<close> when the buffer does not parse)
  and the order in which the snapshot's keys are visited.\<close>

definition merge_service ::
  "string \<Rightarrow> ServiceInstance slice \<Rightarrow> services_map \<Rightarrow> services_map" where
  "merge_service service instances m =
     (if lookup m service = None then m(service \<mapsto> instances)
      else fold (\<lambda>remoteInst m'. m'(service \<mapsto> Some (upsert remoteInst (elems (lookup m' service)))))
             (elems instances) m)"

definition merge_services :: "services_map \<Rightarrow> string list \<Rightarrow> services_map \<Rightarrow> services_map" where
  "merge_services remoteServices order m =
     fold (\<lambda>service m'. case remoteServices service of
                            None \<Rightarrow> m'
                          | Some instances \<Rightarrow> merge_service service instances m') order m"

definition MergeRemoteState :: "services_map option \<Rightarrow> string list \<Rightarrow> Service \<Rightarrow> Service" where
  "MergeRemoteState buf order s =
     (case buf of
        None \<Rightarrow> s
      | Some remoteServices \<Rightarrow>
          notifyListeners (s\<lparr>services := merge_services remoteServices order (services s)\<rparr>))"

text \<open>Histories of the registry: the calls that change it, applied in sequence to the
  empty registry.\<close>

datatype op =
    OpRegister ServiceInstance
  | OpDeregister string "string list"
  | OpNotifyMsg "message option" "string list"
  | OpMerge "services_map option" "string list"
  | OpSubscribe nat

fun apply_op :: "op \<Rightarrow> Service \<Rightarrow> Service" where
  "apply_op (OpRegister inst) s = snd (Register inst s)"
| "apply_op (OpDeregister serviceID order) s = snd (Deregister serviceID order s)"
| "apply_op (OpNotifyMsg msg order) s = NotifyMsg msg order s"
| "apply_op (OpMerge buf order) s = MergeRemoteState buf order s"
| "apply_op (OpSubscribe fn) s = Subscribe fn s"

definition run :: "op list \<Rightarrow> Service" where
  "run ops = fold apply_op ops New"

text \<open>Within each service the instance ids are pairwise distinct.\<close>

definition ids_distinct :: "services_map \<Rightarrow> bool" where
  "ids_distinct m = (\<forall>k. distinct (map ID (elems (lookup m k))))"

section \<open>internal/proxy: control API and reactive wiring\<close>

definition reservedServiceNames :: "string set" where
  "reservedServiceNames = {''api'', ''_fluxgate'', ''health'', ''metrics'', ''v1''}"

definition isReservedServiceName :: "string \<Rightarrow> bool" where
  "isReservedServiceName name = (name \<in> reservedServiceNames \<or> HasPrefix name ''_'')"

text \<open>The part of \<open>Server\<close> that the registration handler and the wiring touch: the
  registry, the route table, the pools, and the store of backends with its next free
  address (\<open>&loadbalancer.Backend{...}\<close> allocates there).\<close>

record Server =
  discovery :: Service
  router :: Router
  loadBalancers :: "string \<rightharpoonup> LoadBalancer"
  store :: heap
  next_addr :: addr

text \<open>\<open>handleServiceRegistration\<close> on a request with the given method whose body decodes
  to \<open>body\<close> (\<open>None\<close> when the JSON decoder fails); the result is the HTTP status and the
  server afterwards.\<close>

definition handleServiceRegistration ::
  "string \<Rightarrow> ServiceInstance option \<Rightarrow> Server \<Rightarrow> nat \<times> Server" where
  "handleServiceRegistration method body srv =
     (if method \<noteq> ''POST'' then (405, srv)
      else case body of
        None \<Rightarrow> (400, srv)
      | Some inst \<Rightarrow>
          if ID inst = [] \<or> Service inst = [] \<or> Address inst = [] \<or> Port inst = 0
          then (400, srv)
          else if isReservedServiceName (Service inst) then (400, srv)
          else (case Register inst (discovery srv) of
                  (Some err, d) \<Rightarrow> (500, srv\<lparr>discovery := d\<rparr>)
                | (None, d) \<Rightarrow> (201, srv\<lparr>discovery := d\<rparr>)))"

text \<open>\<open>handleServiceDeregistration\<close> with the \<open>id\<close> query parameter (empty when absent).\<close>

definition handleServiceDeregistration ::
  "string \<Rightarrow> string \<Rightarrow> string list \<Rightarrow> Server \<Rightarrow> nat \<times> Server" where
  "handleServiceDeregistration method serviceID order srv =
     (if method \<noteq> ''DELETE'' then (405, srv)
      else if serviceID = [] then (400, srv)
      else (case Deregister serviceID order (discovery srv) of
              (Some err, d) \<Rightarrow> (500, srv\<lparr>discovery := d\<rparr>)
            | (None, d) \<Rightarrow> (200, srv\<lparr>discovery := d\<rparr>)))"

text \<open>The standard-library functions the wiring calls are parameters: \<open>url.Parse\<close>
  (returning the parsed URL's string form, \<open>None\<close> on error), \<open>strconv.Atoi\<close> and the
  \<open>%d\<close> verb of \<open>fmt.Sprintf\<close>.\<close>

record GoLib =
  url_Parse :: "string \<Rightarrow> string option"
  strconv_Atoi :: "string \<Rightarrow> int option"
  fmt_d :: "int \<Rightarrow> string"

text \<open>\<open>instance.Metadata["weight"]\<close>: reading a nil map finds nothing.\<close>

definition metadata_get :: "mheap \<Rightarrow> ServiceInstance \<Rightarrow> string \<Rightarrow> string option" where
  "metadata_get mh inst key = (case Metadata inst of None \<Rightarrow> None | Some a \<Rightarrow> mh a key)"

definition instance_weight :: "GoLib \<Rightarrow> mheap \<Rightarrow> ServiceInstance \<Rightarrow> int" where
  "instance_weight lib mh inst =
     (case metadata_get mh inst ''weight'' of
        None \<Rightarrow> 1
      | Some w \<Rightarrow> (case strconv_Atoi lib w of Some parsedWeight \<Rightarrow> parsedWeight | None \<Rightarrow> 1))"

text \<open>The loop of \<open>updateLoadBalancerBackends\<close> over the instances, threading the new
  pool, the backend store and the next free address.\<close>

fun add_instances ::
  "GoLib \<Rightarrow> mheap \<Rightarrow> ServiceInstance list \<Rightarrow> LoadBalancer \<times> heap \<times> addr
   \<Rightarrow> LoadBalancer \<times> heap \<times> addr" where
  "add_instances lib mh [] st = st"
| "add_instances lib mh (inst # rest) (newLB, h, a) =
     (case url_Parse lib (''http://'' @ Address inst @ '':'' @ fmt_d lib (Port inst)) of
        None \<Rightarrow> add_instances lib mh rest (newLB, h, a)
      | Some parsedURL \<Rightarrow>
          (let weight = instance_weight lib mh inst;
               h1 = h(a := \<lparr>URL = parsedURL, Weight = weight, Active = True, Connections = 0\<rparr>)
           in case lb_Add a newLB h1 of
                (newLB', h2) \<Rightarrow> add_instances lib mh rest (newLB', h2, Suc a)))"

definition wildcard_methods :: "string list" where
  "wildcard_methods = [''GET'', ''POST'', ''PUT'', ''DELETE'', ''PATCH'', ''OPTIONS'']"

definition updateLoadBalancerBackends ::
  "GoLib \<Rightarrow> mheap \<Rightarrow> string \<Rightarrow> ServiceInstance list \<Rightarrow> Server \<Rightarrow> Server" where
  "updateLoadBalancerBackends lib mh serviceName instances srv =
     (let (lb, srv1) =
            (case loadBalancers srv serviceName of
               None \<Rightarrow>
                 (RR NewRoundRobin,
                  srv\<lparr>loadBalancers := (loadBalancers srv)(serviceName \<mapsto> RR NewRoundRobin),
                      router := AddRoute (''/'' @ serviceName @ ''/*'') serviceName
                                  wildcard_methods (router srv)\<rparr>)
             | Some lb \<Rightarrow> (lb, srv));
          newLB = (case lb of LC _ \<Rightarrow> LC NewLeastConnection | _ \<Rightarrow> RR NewRoundRobin)
      in case add_instances lib mh instances (newLB, store srv1, next_addr srv1) of
           (newLB', h, a) \<Rightarrow>
             srv1\<lparr>loadBalancers := (loadBalancers srv1)(serviceName \<mapsto> newLB'),
                  store := h, next_addr := a\<rparr>)"

text \<open>The subscriber installed by \<open>subscribeToServiceChanges\<close>, run on a delivered
  snapshot whose keys are visited in \<open>order\<close>.\<close>

definition serviceChanged ::
  "GoLib \<Rightarrow> mheap \<Rightarrow> services_map \<Rightarrow> string list \<Rightarrow> Server \<Rightarrow> Server" where
  "serviceChanged lib mh snapshot order srv =
     fold (\<lambda>serviceName srv'. case snapshot serviceName of
                                 None \<Rightarrow> srv'
                               | Some instances \<Rightarrow>
                                   updateLoadBalancerBackends lib mh serviceName (elems instances) srv')
          order srv"

section \<open>Example values\<close>

definition inst_a :: ServiceInstance where
  "inst_a = \<lparr>ID = ''a'', Service = ''web'', Address = ''10.0.0.1'', Port = 9001, Metadata = Some 0\<rparr>"

definition inst_a2 :: ServiceInstance where
  "inst_a2 = \<lparr>ID = ''a'', Service = ''web'', Address = ''10.0.0.2'', Port = 9002, Metadata = None\<rparr>"

definition inst_b :: ServiceInstance where
  "inst_b = \<lparr>ID = ''b'', Service = ''web'', Address = ''10.0.0.4'', Port = 9004, Metadata = None\<rparr>"

definition dup_snapshot :: services_map where
  "dup_snapshot = [''web'' \<mapsto> Some [inst_a, inst_a2]]"

definition ok_snapshot :: services_map where
  "ok_snapshot = [''web'' \<mapsto> Some [inst_a2, inst_b]]"

definition known_state :: Service where
  "known_state = run [OpSubscribe 7, OpRegister inst_a]"

text \<open>A registry that knows the service \<open>web\<close> but holds no instance of it: the slice
  left by deregistering the last instance is empty, not nil.\<close>

definition emptied_state :: Service where
  "emptied_state = run [OpRegister inst_b, OpDeregister ''b'' [''web'']]"

section \<open>Predicates used in the statements\<close>

text \<open>No instance of any service carries the id.\<close>

definition id_unknown :: "string \<Rightarrow> services_map \<Rightarrow> bool" where
  "id_unknown serviceID m = (\<forall>k. serviceID \<notin> ID ` set (elems (lookup m k)))"

text \<open>A history all of whose merged snapshots have pairwise distinct ids in each service.\<close>

fun snapshot_distinct :: "op \<Rightarrow> bool" where
  "snapshot_distinct (OpMerge (Some remoteServices) order) = ids_distinct remoteServices"
| "snapshot_distinct _ = True"

text \<open>The merge rule in the specification's words. A list of instances keyed by id is the
  map from each id to its instance, a later entry of the list replacing an earlier one with
  the same id (receipt order). The union by id of the local and the remote instances is the
  local map overridden by the remote one: on an id collision the remote instance wins. A list
  is that union when it holds each id once and, keyed by id, equals it.\<close>

definition keyed_by_id :: "ServiceInstance list \<Rightarrow> (string \<rightharpoonup> ServiceInstance)" where
  "keyed_by_id insts = fold (\<lambda>inst m. m(ID inst \<mapsto> inst)) insts Map.empty"

definition spec_union_by_id ::
  "ServiceInstance list \<Rightarrow> ServiceInstance list \<Rightarrow> (string \<rightharpoonup> ServiceInstance)" where
  "spec_union_by_id localInsts remoteInsts = keyed_by_id localInsts ++ keyed_by_id remoteInsts"

definition is_union_by_id ::
  "ServiceInstance list \<Rightarrow> ServiceInstance list \<Rightarrow> ServiceInstance list \<Rightarrow> bool" where
  "is_union_by_id merged localInsts remoteInsts =
     (distinct (map ID merged) \<and> keyed_by_id merged = spec_union_by_id localInsts remoteInsts)"

text \<open>The registries of a closed cluster: every node starts empty, and a snapshot merged
  into one node is the registry of some node of the cluster (\<open>LocalState\<close> encodes
  \<open>s.services\<close>, and decoding gives back the same lists of instances).\<close>

inductive cluster_reachable :: "Service \<Rightarrow> bool" where
  cluster_New: "cluster_reachable New"
| cluster_Register: "cluster_reachable s \<Longrightarrow> cluster_reachable (snd (Register inst s))"
| cluster_Deregister:
    "cluster_reachable s \<Longrightarrow> cluster_reachable (snd (Deregister serviceID order s))"
| cluster_NotifyMsg: "cluster_reachable s \<Longrightarrow> cluster_reachable (NotifyMsg msg order s)"
| cluster_Subscribe: "cluster_reachable s \<Longrightarrow> cluster_reachable (Subscribe fn s)"
| cluster_Merge:
    "cluster_reachable s \<Longrightarrow> cluster_reachable peer
     \<Longrightarrow> cluster_reachable (MergeRemoteState (Some (services peer)) order s)"

section \<open>Further example values and statement helpers\<close>

text \<open>A well-formed register delta as \<open>NotifyMsg\<close> sees it after decoding.\<close>

definition register_msg :: "ServiceInstance \<Rightarrow> message option" where
  "register_msg inst = Some \<lparr>msg_action = Some ''register'', msg_instance = Some inst,
     msg_service_id = None\<rparr>"

definition server0 :: Server where
  "server0 = \<lparr>discovery = New, router = router_New, loadBalancers = Map.empty,
     store = idle_heap, next_addr = 0\<rparr>"

definition inst_big :: ServiceInstance where
  "inst_big = \<lparr>ID = ''c'', Service = ''web'', Address = ''10.0.0.5'', Port = 70000, Metadata = None\<rparr>"

definition inst_port0 :: ServiceInstance where
  "inst_port0 = \<lparr>ID = ''d'', Service = ''web'', Address = ''10.0.0.6'', Port = 0, Metadata = None\<rparr>"

text \<open>What a caller holding an instance can do to its metadata: the Go assignment
  \<open>inst.Metadata[key] = v\<close> writes into the map the field points to (and panics on the nil
  map, \<open>None\<close>).\<close>

definition metadata_set :: "ServiceInstance \<Rightarrow> string \<Rightarrow> string \<Rightarrow> mheap \<Rightarrow> mheap option" where
  "metadata_set inst key v mh =
     (case Metadata inst of None \<Rightarrow> None | Some a \<Rightarrow> Some (mh(a := (mh a)(key \<mapsto> v))))"

definition example_mheap :: mheap where
  "example_mheap = (\<lambda>a. [''weight'' \<mapsto> ''1''])"

text \<open>The instances whose backend URL parses: the ones \<open>updateLoadBalancerBackends\<close> turns
  into backends.\<close>

definition parsed_instances :: "GoLib \<Rightarrow> ServiceInstance list \<Rightarrow> ServiceInstance list" where
  "parsed_instances lib instances =
     filter (\<lambda>inst. url_Parse lib (''http://'' @ Address inst @ '':'' @ fmt_d lib (Port inst)) \<noteq> None)
       instances"

text \<open>The active backends of a pool, in pool order.\<close>

definition active_of :: "heap \<Rightarrow> addr list \<Rightarrow> addr list" where
  "active_of h bs = filter (\<lambda>b. Active (h b)) bs"

text \<open>Whether the pool registered for a service is a least-connection pool, and the pool
  of a given variant as it is right after construction and \<open>n\<close> additions of the freshly
  allocated backends \<open>a, ..., a + n - 1\<close>.\<close>

definition is_LC :: "LoadBalancer option \<Rightarrow> bool" where
  "is_LC p = (case p of Some (LC _) \<Rightarrow> True | _ \<Rightarrow> False)"

definition fresh_pool :: "bool \<Rightarrow> addr \<Rightarrow> nat \<Rightarrow> LoadBalancer" where
  "fresh_pool lc a n =
     (if lc then LC \<lparr>lc_backends = [a ..< a + n]\<rparr>
      else RR \<lparr>rr_backends = [a ..< a + n], current = 0\<rparr>)"

definition example_lib :: GoLib where
  "example_lib = \<lparr>url_Parse = Some, strconv_Atoi = (\<lambda>w. None), fmt_d = (\<lambda>p. ''9000'')\<rparr>"

definition rotated_server :: Server where
  "rotated_server = server0\<lparr>loadBalancers := [''web'' \<mapsto> RR \<lparr>rr_backends = [0, 1, 2], current = 41\<rparr>],
     next_addr := 3\<rparr>"

section \<open>Route matching\<close>

lemma HasPrefix_iff: "HasPrefix s pre \<longleftrightarrow> (\<exists>t. s = pre @ t)"
  unfolding HasPrefix_def
  by (metis append_eq_conv_conj append_take_drop_id length_append le_add1)

lemma HasSuffix_append [simp]: "HasSuffix (s @ suf) suf"
  by (simp add: HasSuffix_def)

lemma TrimSuffix_append [simp]: "TrimSuffix (s @ suf) suf = s"
  by (simp add: TrimSuffix_def)

lemma wildcard_route_split:
  "HasSuffix (''/'' @ s @ ''/*'') ''*''
   \<and> TrimSuffix (''/'' @ s @ ''/*'') ''*'' = ''/'' @ s @ ''/''
   \<and> HasSuffix (''/'' @ s @ ''/'') ''/''
   \<and> TrimSuffix (''/'' @ s @ ''/'') ''/'' = ''/'' @ s"
proof -
  have a: "''/'' @ s @ ''/*'' = (''/'' @ s @ ''/'') @ ''*''" by simp
  have b: "''/'' @ s @ ''/'' = (''/'' @ s) @ ''/''" by simp
  show ?thesis
    unfolding a using HasSuffix_append TrimSuffix_append b by metis
qed

lemma matchPath_wildcard:
  "matchPath p (''/'' @ s @ ''/*'') \<longleftrightarrow> p = ''/'' @ s \<or> HasPrefix p (''/'' @ s @ ''/'')"
  using wildcard_route_split [of s] by (simp add: matchPath_def Let_def)

text \<open>Claim C8. For every service name \<open>s\<close> and request path \<open>p\<close>, the route pattern
  \<open>/s/*\<close> matches \<open>p\<close> exactly when \<open>p\<close> is \<open>/s\<close>, is \<open>/s/\<close>, or starts with \<open>/s/\<close>;
  the paths \<open>/s2/x\<close> and \<open>/sx\<close> are not matched.\<close>

theorem matchPath_service_wildcard:
  "(matchPath p (''/'' @ s @ ''/*'') \<longleftrightarrow>
      p = ''/'' @ s \<or> p = ''/'' @ s @ ''/'' \<or> (\<exists>t. p = ''/'' @ s @ ''/'' @ t))
   \<and> \<not> matchPath (''/'' @ s @ ''2/x'') (''/'' @ s @ ''/*'')
   \<and> \<not> matchPath (''/'' @ s @ ''x'') (''/'' @ s @ ''/*'')"
proof -
  have pre: "\<And>q. HasPrefix q (''/'' @ s @ ''/'') \<longleftrightarrow> (\<exists>t. q = ''/'' @ s @ ''/'' @ t)"
    by (simp add: HasPrefix_iff)
  have one: "matchPath p (''/'' @ s @ ''/*'') \<longleftrightarrow>
      p = ''/'' @ s \<or> p = ''/'' @ s @ ''/'' \<or> (\<exists>t. p = ''/'' @ s @ ''/'' @ t)"
    unfolding matchPath_wildcard pre by auto
  have two: "\<not> matchPath (''/'' @ s @ ''2/x'') (''/'' @ s @ ''/*'')"
    unfolding matchPath_wildcard pre by simp
  have three: "\<not> matchPath (''/'' @ s @ ''x'') (''/'' @ s @ ''/*'')"
    unfolding matchPath_wildcard pre by simp
  from one two three show ?thesis by blast
qed

section \<open>Backend selection\<close>

lemma maxInt64_numeral: "maxInt64 = 9223372036854775807"
  by (simp add: maxInt64_def mask_eq_exp_minus_1)

lemma sint_maxInt64: "sint maxInt64 = 9223372036854775807"
  by (simp add: maxInt64_numeral)

lemma sint_less_maxInt64: "sint w < sint maxInt64 \<longleftrightarrow> w \<noteq> maxInt64" for w :: "64 word"
proof -
  have "sint w \<le> sint maxInt64"
    using sint_lt [of w] by (simp add: sint_maxInt64)
  then show ?thesis
    using word_eq_iff_signed [where ?'a = int, of w maxInt64] by auto
qed

text \<open>Round-robin: \<open>Next\<close> is \<open>nil\<close> exactly when the pool is empty or has no active
  backend, and a returned backend is an active member of the pool.\<close>

lemma RoundRobin_Next_none_iff:
  "fst (RoundRobin_Next rr h) = None \<longleftrightarrow>
     rr_backends rr = [] \<or> (\<forall>b \<in> set (rr_backends rr). \<not> Active (h b))"
  by (auto simp: RoundRobin_Next_def Let_def filter_empty_conv)

lemma RoundRobin_Next_active:
  assumes "fst (RoundRobin_Next rr h) = Some b"
  shows "b \<in> set (rr_backends rr) \<and> Active (h b)"
proof -
  let ?act = "filter (\<lambda>b. Active (h b)) (rr_backends rr)"
  from assms have ne: "?act \<noteq> []"
    and b: "b = ?act ! (unat (current rr + 1) mod length ?act)"
    by (auto simp: RoundRobin_Next_def Let_def split: if_splits)
  from ne have "unat (current rr + 1) mod length ?act < length ?act" by simp
  then have "b \<in> set ?act" unfolding b by (rule nth_mem)
  then show ?thesis by simp
qed

text \<open>Least-connection: once a backend is selected the scan never returns \<open>nil\<close>; it
  returns \<open>nil\<close> from an empty selection exactly when no backend is active with a counter
  below the running minimum.\<close>

lemma lc_scan_Some [simp]: "lc_scan h bs (Some x) m \<noteq> None"
  by (induction bs arbitrary: x m) auto

lemma lc_scan_None_iff:
  "lc_scan h bs None m = None \<longleftrightarrow>
     (\<forall>b \<in> set bs. \<not> (Active (h b) \<and> sint (Connections (h b)) < sint m))"
  by (induction bs) auto

lemma lc_scan_result:
  "lc_scan h bs sel m = Some b \<Longrightarrow> sel = Some b \<or> (b \<in> set bs \<and> Active (h b))"
  by (induction bs arbitrary: sel m) (auto split: if_splits)

lemma LeastConnection_Next_active:
  "fst (LeastConnection_Next lc h) = Some b \<Longrightarrow> b \<in> set (lc_backends lc) \<and> Active (h b)"
  by (auto simp: LeastConnection_Next_def split: option.splits dest: lc_scan_result)

lemma LeastConnection_Next_none_iff:
  "fst (LeastConnection_Next lc h) = None \<longleftrightarrow>
     (\<forall>b \<in> set (lc_backends lc). \<not> (Active (h b) \<and> Connections (h b) \<noteq> maxInt64))"
proof -
  have "fst (LeastConnection_Next lc h) = None \<longleftrightarrow>
      lc_scan h (lc_backends lc) None maxInt64 = None"
    by (simp add: LeastConnection_Next_def split: option.splits)
  then show ?thesis
    by (simp add: lc_scan_None_iff sint_less_maxInt64)
qed

text \<open>Claim C2. \<open>Next\<close> returns none if and only if the pool is empty or every backend is
  inactive. The round-robin pool satisfies this (\<open>RoundRobin_Next_none_iff\<close>,
  \<open>RoundRobin_Next_active\<close>). The least-connection pool does not: its scan starts from
  \<open>minConnections = MaxInt64\<close> and compares with \<open><\<close>, so a pool whose only backend is
  active with \<open>Connections = MaxInt64\<close> yields \<open>nil\<close> although an active backend
  exists.\<close>

theorem LeastConnection_Next_saturated:
  "Active (saturated_heap 0)
   \<and> Connections (saturated_heap 0) = 9223372036854775807
   \<and> fst (LeastConnection_Next \<lparr>lc_backends = [0]\<rparr> saturated_heap) = None"
  by (simp add: LeastConnection_Next_def saturated_heap_def saturated_backend_def
      maxInt64_numeral)

text \<open>Claim C3, as stated, fails for the round-robin pool: adding an inactive backend to a
  fresh round-robin pool appends it and leaves it inactive.\<close>

theorem RoundRobin_Add_keeps_inactive:
  "rr_backends (fst (RoundRobin_Add 0 NewRoundRobin idle_heap)) = [0]
   \<and> \<not> Active (snd (RoundRobin_Add 0 NewRoundRobin idle_heap) 0)"
  by (simp add: RoundRobin_Add_def NewRoundRobin_def idle_heap_def idle_backend_def)

text \<open>Claim C3, amended. \<open>Add\<close> appends the backend in both pool variants. The
  least-connection pool sets the backend's active flag to true whatever it was before and
  changes nothing else in the store; the round-robin pool leaves the store, and so the
  flag, as it was.\<close>

theorem Add_appends:
  "rr_backends (fst (RoundRobin_Add b rr h)) = rr_backends rr @ [b]
   \<and> snd (RoundRobin_Add b rr h) = h
   \<and> lc_backends (fst (LeastConnection_Add b lc h)) = lc_backends lc @ [b]
   \<and> snd (LeastConnection_Add b lc h) = h(b := (h b)\<lparr>Active := True\<rparr>)
   \<and> Active (snd (LeastConnection_Add b lc h) b)"
  by (simp add: RoundRobin_Add_def LeastConnection_Add_def Let_def)

section \<open>Registry: basic facts\<close>

lemma lookup_upd [simp]: "lookup (m(k \<mapsto> v)) k' = (if k' = k then v else lookup m k')"
  by (simp add: lookup_def)

lemma lookup_empty [simp]: "lookup Map.empty k = None"
  by (simp add: lookup_def)

lemma services_notifyListeners [simp]: "services (notifyListeners s) = services s"
  by (simp add: notifyListeners_def)

lemma upsert_service_eq:
  "upsert_service inst m = m(Service inst \<mapsto> Some (upsert inst (elems (lookup m (Service inst)))))"
  by (simp add: upsert_service_def Let_def)

lemma ids_upsert: "ID ` set (upsert inst xs) = insert (ID inst) (ID ` set xs)"
  by (induction xs) auto

lemma distinct_upsert: "distinct (map ID xs) \<Longrightarrow> distinct (map ID (upsert inst xs))"
proof (induction xs)
  case Nil
  then show ?case by simp
next
  case (Cons x xs)
  then show ?case using ids_upsert [of inst xs] by (auto simp del: ids_upsert)
qed

lemma set_upsert:
  "distinct (map ID xs) \<Longrightarrow> set (upsert inst xs) = insert inst {x \<in> set xs. ID x \<noteq> ID inst}"
  by (induction xs) (auto simp: image_iff)

lemma upsert_member: "inst \<in> set (upsert inst xs)"
  by (induction xs) auto

lemma distinct_remove_at: "distinct ys \<Longrightarrow> distinct (remove_at i ys)"
  by (simp add: remove_at_def set_take_disj_set_drop_if_distinct)

lemma map_remove_at: "map f (remove_at i xs) = remove_at i (map f xs)"
  by (simp add: remove_at_def take_map drop_map)

lemma find_ID_None_iff: "find_ID sid xs = None \<longleftrightarrow> sid \<notin> ID ` set xs"
  by (induction xs) auto

lemma scan_services_None:
  "(\<forall>k \<in> set order. sid \<notin> ID ` set (elems (lookup m k))) \<Longrightarrow> scan_services m sid order = None"
  by (induction order) (auto simp: find_ID_None_iff split: option.splits)

lemma known_state_eq:
  "known_state = \<lparr>services = [''web'' \<mapsto> Some [inst_a]], broadcasts = [RegisterMsg inst_a],
     onChange = [7], delivered = [(7, [''web'' \<mapsto> Some [inst_a]])]\<rparr>"
proof -
  have "copy_services [''web'' \<mapsto> Some [inst_a]] = [''web'' \<mapsto> Some [inst_a]]"
    by (rule ext) (simp add: copy_services_def)
  then show ?thesis
    by (simp add: known_state_def run_def Register_def Subscribe_def New_def json_Marshal_def
        notifyListeners_def upsert_service_eq inst_a_def)
qed

section \<open>Deregistering an unknown id\<close>

text \<open>Claim C5. When the id occurs in no service's instance list, \<open>Deregister\<close> returns the
  not-found error and the registry (instances, broadcast queue, deliveries to subscribers)
  is exactly as before, whatever the order in which the services are scanned.\<close>

theorem Deregister_unknown_id:
  assumes "id_unknown serviceID (services s)"
  shows "Deregister serviceID order s = (Some (NotFound serviceID), s)"
proof -
  from assms have "\<forall>k \<in> set order. serviceID \<notin> ID ` set (elems (lookup (services s) k))"
    by (simp add: id_unknown_def)
  then have "scan_services (services s) serviceID order = None"
    by (rule scan_services_None)
  then show ?thesis by (simp add: Deregister_def)
qed

theorem Deregister_unknown_id_witness:
  "id_unknown ''zz'' (services known_state)
   \<and> Deregister ''zz'' [''web''] known_state = (Some (NotFound ''zz''), known_state)"
proof -
  have h: "id_unknown ''zz'' (services known_state)"
    by (simp add: id_unknown_def known_state_eq lookup_def inst_a_def)
  show ?thesis using h Deregister_unknown_id [OF h, of "[''web'']"] by simp
qed

section \<open>Uniqueness of ids within a service\<close>

lemma ids_distinct_upd:
  "ids_distinct m \<Longrightarrow> distinct (map ID (elems v)) \<Longrightarrow> ids_distinct (m(k \<mapsto> v))"
  by (simp add: ids_distinct_def)

lemma ids_distinctD: "ids_distinct m \<Longrightarrow> distinct (map ID (elems (lookup m k)))"
  by (simp add: ids_distinct_def)

lemma ids_distinct_lookup:
  "ids_distinct remote \<Longrightarrow> remote k = Some v \<Longrightarrow> distinct (map ID (elems v))"
  using ids_distinctD [of remote k] by (simp add: lookup_def)

lemma ids_distinct_upsert_service: "ids_distinct m \<Longrightarrow> ids_distinct (upsert_service inst m)"
  unfolding upsert_service_eq
  by (rule ids_distinct_upd) (simp_all add: distinct_upsert ids_distinctD)

lemma ids_distinct_remove:
  "ids_distinct m \<Longrightarrow> ids_distinct (m(k \<mapsto> Some (remove_at i (elems (lookup m k)))))"
  by (rule ids_distinct_upd) (simp_all add: map_remove_at distinct_remove_at ids_distinctD)

lemma fold_upsert_upd:
  "fold (\<lambda>r m'. m'(k \<mapsto> Some (upsert r (elems (lookup m' k))))) rs m =
     (if rs = [] then m else m(k \<mapsto> Some (fold upsert rs (elems (lookup m k)))))"
  by (induction rs arbitrary: m) auto

lemma distinct_fold_upsert:
  "distinct (map ID xs) \<Longrightarrow> distinct (map ID (fold upsert rs xs))"
  by (induction rs arbitrary: xs) (simp_all add: distinct_upsert)

lemma ids_distinct_merge_service:
  assumes "ids_distinct m" and "distinct (map ID (elems instances))"
  shows "ids_distinct (merge_service k instances m)"
proof (cases "lookup m k = None")
  case True
  then show ?thesis using assms by (simp add: merge_service_def ids_distinct_upd)
next
  case False
  then show ?thesis using assms
    by (simp add: merge_service_def fold_upsert_upd ids_distinct_upd distinct_fold_upsert
        ids_distinctD)
qed

lemma ids_distinct_merge_services:
  "ids_distinct remote \<Longrightarrow> ids_distinct m \<Longrightarrow> ids_distinct (merge_services remote order m)"
  unfolding merge_services_def
  by (induction order arbitrary: m)
    (auto split: option.splits intro: ids_distinct_merge_service dest: ids_distinct_lookup)

lemma apply_op_ids_distinct:
  assumes "snapshot_distinct op" and "ids_distinct (services s)"
  shows "ids_distinct (services (apply_op op s))"
proof (cases op)
  case (OpRegister inst)
  then show ?thesis using assms
    by (simp add: Register_def json_Marshal_def ids_distinct_upsert_service)
next
  case (OpDeregister sid order)
  then show ?thesis using assms
    by (auto simp: Deregister_def json_Marshal_def ids_distinct_remove split: option.splits)
next
  case (OpNotifyMsg msg order)
  then show ?thesis using assms
    by (auto simp: NotifyMsg_def ids_distinct_remove ids_distinct_upsert_service
        split: option.splits)
next
  case (OpMerge buf order)
  then show ?thesis using assms
    by (cases buf) (simp_all add: MergeRemoteState_def ids_distinct_merge_services)
next
  case (OpSubscribe fn)
  then show ?thesis using assms by (simp add: Subscribe_def)
qed

lemma fold_apply_op_ids_distinct:
  "list_all snapshot_distinct ops \<Longrightarrow> ids_distinct (services s)
   \<Longrightarrow> ids_distinct (services (fold apply_op ops s))"
  by (induction ops arbitrary: s) (simp_all add: apply_op_ids_distinct)

lemma ids_distinct_merge_known_service:
  "ids_distinct m \<Longrightarrow> lookup m k \<noteq> None \<Longrightarrow> ids_distinct (merge_service k instances m)"
  by (auto simp: merge_service_def fold_upsert_upd ids_distinct_upd distinct_fold_upsert
      ids_distinctD)

text \<open>Every history whose merged snapshots list each id once per service keeps the ids of
  each service distinct, and so does every history of a closed cluster.\<close>

lemma run_ids_distinct:
  "list_all snapshot_distinct ops \<Longrightarrow> ids_distinct (services (run ops))"
  unfolding run_def
  by (rule fold_apply_op_ids_distinct) (simp_all add: New_def ids_distinct_def)

lemma cluster_reachable_ids_distinct:
  "cluster_reachable s \<Longrightarrow> ids_distinct (services s)"
proof (induction rule: cluster_reachable.induct)
  case cluster_New
  show ?case by (simp add: New_def ids_distinct_def)
next
  case (cluster_Register s inst)
  then show ?case using apply_op_ids_distinct [of "OpRegister inst" s] by simp
next
  case (cluster_Deregister s serviceID order)
  then show ?case using apply_op_ids_distinct [of "OpDeregister serviceID order" s] by simp
next
  case (cluster_NotifyMsg s msg order)
  then show ?case using apply_op_ids_distinct [of "OpNotifyMsg msg order" s] by simp
next
  case (cluster_Subscribe s fn)
  then show ?case using apply_op_ids_distinct [of "OpSubscribe fn" s] by simp
next
  case (cluster_Merge s peer order)
  then show ?case
    using apply_op_ids_distinct [of "OpMerge (Some (services peer)) order" s] by simp
qed

lemma services_emptied_state: "services emptied_state = [''web'' \<mapsto> Some []]"
  by (simp add: emptied_state_def run_def New_def Register_def Deregister_def json_Marshal_def
      upsert_service_eq remove_at_def inst_b_def)

text \<open>Claim C1. Within each service of a reachable registry the instance ids are pairwise
  distinct. \<open>Register\<close>, \<open>Deregister\<close> and \<open>NotifyMsg\<close> keep this, and so does
  \<open>MergeRemoteState\<close> for a service the registry knows, where it upserts the remote
  instances one by one. For a service unknown locally it stores the remote list as it is: the
  snapshot that lists the id \<open>a\<close> twice, merged into the empty registry, leaves two
  instances with id \<open>a\<close> in the service \<open>web\<close>, while the same snapshot merged into a
  registry that knows \<open>web\<close> leaves distinct ids.\<close>

theorem merge_duplicate_snapshot:
  "\<not> ids_distinct (services (run [OpMerge (Some dup_snapshot) [''web'']]))
   \<and> map ID (elems (lookup (services (run [OpMerge (Some dup_snapshot) [''web'']])) ''web''))
       = [''a'', ''a'']
   \<and> ids_distinct (services (MergeRemoteState (Some dup_snapshot) [''web''] emptied_state))"
proof -
  let ?s = "run [OpMerge (Some dup_snapshot) [''web'']]"
  have e: "elems (lookup (services ?s) ''web'') = [inst_a, inst_a2]"
    by (simp add: run_def MergeRemoteState_def merge_services_def merge_service_def New_def
        dup_snapshot_def)
  then have ids: "map ID (elems (lookup (services ?s) ''web'')) = [''a'', ''a'']"
    by (simp add: inst_a_def inst_a2_def)
  then have "\<not> distinct (map ID (elems (lookup (services ?s) ''web'')))"
    by simp
  then have n: "\<not> ids_distinct (services ?s)" unfolding ids_distinct_def by blast
  have "ids_distinct (services emptied_state)"
    by (simp add: services_emptied_state ids_distinct_def lookup_def)
  moreover have "lookup (services emptied_state) ''web'' \<noteq> None"
    by (simp add: services_emptied_state)
  ultimately have "ids_distinct (merge_service ''web'' (Some [inst_a, inst_a2])
      (services emptied_state))"
    by (rule ids_distinct_merge_known_service)
  then have k: "ids_distinct (services (MergeRemoteState (Some dup_snapshot) [''web'']
      emptied_state))"
    by (simp add: MergeRemoteState_def merge_services_def dup_snapshot_def)
  from n ids k show ?thesis by blast
qed

section \<open>Merging a remote snapshot\<close>

text \<open>Merging one service rewrites only that service's entry: a nil local slice takes the
  remote slice, any other takes the remote instances upserted one by one.\<close>

lemma merge_service_eq:
  "merge_service k instances m =
     m(k \<mapsto> (case lookup m k of None \<Rightarrow> instances
                | Some xs \<Rightarrow> Some (fold upsert (elems instances) xs)))"
proof (cases "lookup m k")
  case None
  then show ?thesis by (simp add: merge_service_def)
next
  case (Some xs)
  then have mk: "m k = Some (Some xs)"
    by (auto simp: lookup_def split: option.splits)
  show ?thesis
  proof (cases "elems instances = []")
    case True
    then show ?thesis using Some mk by (simp add: merge_service_def fun_upd_idem)
  next
    case False
    then show ?thesis using Some by (simp add: merge_service_def fold_upsert_upd)
  qed
qed

lemma merge_services_other:
  "k \<notin> set order \<Longrightarrow> merge_services remote order m k = m k"
  unfolding merge_services_def
  by (induction order arbitrary: m) (auto simp: merge_service_eq split: option.splits)

lemma merge_services_absent:
  "remote k = None \<Longrightarrow> merge_services remote order m k = m k"
  unfolding merge_services_def
  by (induction order arbitrary: m) (auto simp: merge_service_eq split: option.splits)

lemma merge_services_at:
  assumes "distinct order" and "k \<in> set order" and "remote k = Some instances"
  shows "merge_services remote order m k =
     Some (case lookup m k of None \<Rightarrow> instances
           | Some xs \<Rightarrow> Some (fold upsert (elems instances) xs))"
  using assms
proof (induction order arbitrary: m)
  case Nil
  then show ?case by simp
next
  case (Cons a order)
  let ?step = "\<lambda>service m'. case remote service of None \<Rightarrow> m'
                 | Some instances \<Rightarrow> merge_service service instances m'"
  have unfold: "merge_services remote (a # order) m = merge_services remote order (?step a m)"
    by (simp add: merge_services_def)
  show ?case
  proof (cases "k = a")
    case True
    with Cons.prems have "k \<notin> set order" by simp
    then have "merge_services remote order (?step a m) k = ?step a m k"
      by (rule merge_services_other)
    then show ?thesis using True Cons.prems(3) unfolding unfold
      by (simp add: merge_service_eq)
  next
    case False
    with Cons.prems have "k \<in> set order" "distinct order" by auto
    then have "merge_services remote order (?step a m) k =
       Some (case lookup (?step a m) k of None \<Rightarrow> instances
           | Some xs \<Rightarrow> Some (fold upsert (elems instances) xs))"
      using Cons.IH Cons.prems(3) by blast
    moreover have "lookup (?step a m) k = lookup m k"
      using False by (simp add: merge_service_eq lookup_def split: option.splits)
    ultimately show ?thesis unfolding unfold by simp
  qed
qed

text \<open>Lists keyed by id.\<close>

lemma fold_keyed: "fold (\<lambda>inst m. m(ID inst \<mapsto> inst)) rs m = m ++ keyed_by_id rs"
proof (induction rs arbitrary: m)
  case Nil
  show ?case by (simp add: keyed_by_id_def)
next
  case (Cons r rs)
  let ?F = "\<lambda>inst (m :: string \<rightharpoonup> ServiceInstance). m(ID inst \<mapsto> inst)"
  have s1: "fold ?F (r # rs) m = fold ?F rs (m(ID r \<mapsto> r))" by simp
  have s2: "fold ?F rs (m(ID r \<mapsto> r)) = m(ID r \<mapsto> r) ++ keyed_by_id rs" by (rule Cons)
  have s3: "keyed_by_id (r # rs) = fold ?F rs [ID r \<mapsto> r]" by (simp add: keyed_by_id_def)
  have s4: "fold ?F rs [ID r \<mapsto> r] = [ID r \<mapsto> r] ++ keyed_by_id rs" by (rule Cons)
  have s5: "m ++ ([ID r \<mapsto> r] ++ keyed_by_id rs) = m(ID r \<mapsto> r) ++ keyed_by_id rs"
    by (rule ext) (simp add: map_add_def split: option.splits)
  show ?case unfolding s1 s2 s3 s4 s5 ..
qed

lemma keyed_by_id_Nil [simp]: "keyed_by_id [] = Map.empty"
  by (simp add: keyed_by_id_def)

lemma keyed_by_id_Cons: "keyed_by_id (r # rs) = [ID r \<mapsto> r] ++ keyed_by_id rs"
  using fold_keyed [of rs "[ID r \<mapsto> r]"] by (simp add: keyed_by_id_def)

lemma keyed_by_id_notin: "k \<notin> ID ` set xs \<Longrightarrow> keyed_by_id xs k = None"
  by (induction xs) (auto simp: keyed_by_id_Cons map_add_def split: option.splits)

lemma keyed_upsert:
  "distinct (map ID xs) \<Longrightarrow> keyed_by_id (upsert r xs) = (keyed_by_id xs)(ID r \<mapsto> r)"
proof (induction xs)
  case Nil
  show ?case by (simp add: keyed_by_id_Cons)
next
  case (Cons x xs)
  show ?case
  proof (cases "ID x = ID r")
    case True
    with Cons.prems have "ID r \<notin> ID ` set xs" by simp
    then have "keyed_by_id xs (ID r) = None" by (rule keyed_by_id_notin)
    then show ?thesis using True
      by (intro ext) (auto simp: keyed_by_id_Cons map_add_def split: option.splits)
  next
    case False
    with Cons show ?thesis
      by (intro ext) (auto simp: keyed_by_id_Cons map_add_def split: option.splits)
  qed
qed

text \<open>The upsert loop computes the union by id, for any remote list: a remote instance
  replaces the local one with its id, and a later remote instance an earlier one.\<close>

lemma keyed_fold_upsert:
  "distinct (map ID xs) \<Longrightarrow> is_union_by_id (fold upsert rs xs) xs rs"
proof (induction rs arbitrary: xs)
  case Nil
  then show ?case by (simp add: is_union_by_id_def spec_union_by_id_def)
next
  case (Cons r rs)
  from Cons.prems have d: "distinct (map ID (upsert r xs))" by (rule distinct_upsert)
  from Cons.IH [OF d] have "distinct (map ID (fold upsert (r # rs) xs))"
    and "keyed_by_id (fold upsert (r # rs) xs) = keyed_by_id (upsert r xs) ++ keyed_by_id rs"
    by (simp_all add: is_union_by_id_def spec_union_by_id_def)
  moreover have "keyed_by_id (upsert r xs) ++ keyed_by_id rs
      = keyed_by_id xs ++ keyed_by_id (r # rs)"
    unfolding keyed_upsert [OF Cons.prems] keyed_by_id_Cons
    by (rule ext) (simp add: map_add_def split: option.splits)
  ultimately show ?case by (simp add: is_union_by_id_def spec_union_by_id_def)
qed

text \<open>What \<open>MergeRemoteState\<close> does per service, for an order that visits each service of
  the snapshot once: a service known locally with distinct ids ends as the union by id of
  its instances and the remote ones, whatever the remote list; a service unknown locally
  takes the remote slice as it is, which is the union by id when the remote ids are
  distinct; every service absent from the snapshot keeps its entry.\<close>

lemma MergeRemoteState_known_service:
  assumes "distinct order" and "k \<in> set order" and "remote k = Some instances"
    and "lookup (services s) k = Some xs" and "distinct (map ID xs)"
  shows "is_union_by_id (elems (lookup (services (MergeRemoteState (Some remote) order s)) k))
           xs (elems instances)"
proof -
  have "lookup (services (MergeRemoteState (Some remote) order s)) k =
      Some (fold upsert (elems instances) xs)"
    using merge_services_at [of order k remote instances "services s", OF assms(1-3)] assms(4)
    by (simp add: MergeRemoteState_def lookup_def)
  then show ?thesis using keyed_fold_upsert [OF assms(5)] by simp
qed

lemma MergeRemoteState_unknown_service:
  assumes "distinct order" and "k \<in> set order" and "remote k = Some instances"
    and "lookup (services s) k = None"
  shows "lookup (services (MergeRemoteState (Some remote) order s)) k = instances"
  using merge_services_at [of order k remote instances "services s", OF assms(1-3)] assms(4)
  by (simp add: MergeRemoteState_def lookup_def)

lemma is_union_by_id_remote_only:
  "distinct (map ID rs) \<Longrightarrow> is_union_by_id rs [] rs"
  by (simp add: is_union_by_id_def spec_union_by_id_def)

lemma MergeRemoteState_absent_service:
  "remote k = None \<Longrightarrow> services (MergeRemoteState (Some remote) order s) k = services s k"
  by (simp add: MergeRemoteState_def merge_services_absent)

text \<open>Claim C6. \<open>MergeRemoteState\<close> leaves, for each remote service, the union of the local
  and the remote instances keyed by id. It does so for a service known locally. For a
  service unknown locally it stores the remote list unchanged: merging the snapshot that
  lists the id \<open>a\<close> twice into the empty registry leaves both instances in \<open>web\<close>, which is
  not the union by id (that union holds \<open>a\<close> once, as the second instance), while merging
  the same snapshot into a registry that knows \<open>web\<close> with no instance leaves exactly that
  union.\<close>

theorem MergeRemoteState_unknown_service_not_union:
  "lookup (services New) ''web'' = None
   \<and> lookup dup_snapshot ''web'' = Some [inst_a, inst_a2]
   \<and> elems (lookup (services (MergeRemoteState (Some dup_snapshot) [''web''] New)) ''web'')
       = [inst_a, inst_a2]
   \<and> \<not> is_union_by_id
         (elems (lookup (services (MergeRemoteState (Some dup_snapshot) [''web''] New)) ''web''))
         (elems (lookup (services New) ''web'')) (elems (lookup dup_snapshot ''web''))
   \<and> spec_union_by_id (elems (lookup (services New) ''web'')) (elems (lookup dup_snapshot ''web''))
       = [''a'' \<mapsto> inst_a2]
   \<and> lookup (services emptied_state) ''web'' = Some []
   \<and> elems (lookup (services (MergeRemoteState (Some dup_snapshot) [''web''] emptied_state)) ''web'')
       = [inst_a2]
   \<and> is_union_by_id
         (elems (lookup (services (MergeRemoteState (Some dup_snapshot) [''web''] emptied_state))
            ''web''))
         (elems (lookup (services emptied_state) ''web'')) (elems (lookup dup_snapshot ''web''))"
proof -
  have a: "lookup (services New) ''web'' = None" by (simp add: New_def)
  have b: "lookup dup_snapshot ''web'' = Some [inst_a, inst_a2]" by (simp add: dup_snapshot_def)
  have c: "elems (lookup (services (MergeRemoteState (Some dup_snapshot) [''web''] New)) ''web'')
       = [inst_a, inst_a2]"
    by (simp add: MergeRemoteState_def merge_services_def merge_service_def New_def
        dup_snapshot_def)
  have "\<not> distinct (map ID [inst_a, inst_a2])" by (simp add: inst_a_def inst_a2_def)
  then have d: "\<not> is_union_by_id
         (elems (lookup (services (MergeRemoteState (Some dup_snapshot) [''web''] New)) ''web''))
         (elems (lookup (services New) ''web'')) (elems (lookup dup_snapshot ''web''))"
    unfolding c by (simp add: is_union_by_id_def)
  have e: "spec_union_by_id (elems (lookup (services New) ''web''))
      (elems (lookup dup_snapshot ''web'')) = [''a'' \<mapsto> inst_a2]"
    unfolding a b by (simp add: spec_union_by_id_def keyed_by_id_def inst_a_def inst_a2_def)
  have f: "lookup (services emptied_state) ''web'' = Some []"
    by (simp add: services_emptied_state)
  have g: "elems (lookup (services (MergeRemoteState (Some dup_snapshot) [''web''] emptied_state))
      ''web'') = [inst_a2]"
    by (simp add: MergeRemoteState_def merge_services_def merge_service_def
        services_emptied_state dup_snapshot_def)
      (simp add: inst_a_def inst_a2_def)
  have h: "is_union_by_id
         (elems (lookup (services (MergeRemoteState (Some dup_snapshot) [''web''] emptied_state))
            ''web''))
         (elems (lookup (services emptied_state) ''web'')) (elems (lookup dup_snapshot ''web''))"
    unfolding g f b
    by (simp add: is_union_by_id_def spec_union_by_id_def keyed_by_id_def inst_a_def inst_a2_def)
  from a b c d e f g h show ?thesis by blast
qed

section \<open>Deltas received over gossip\<close>

lemma NotifyMsg_register:
  "NotifyMsg (register_msg inst) order s =
     notifyListeners (s\<lparr>services := upsert_service inst (services s)\<rparr>)"
  by (simp add: NotifyMsg_def register_msg_def)

lemma handle_reserved:
  "isReservedServiceName (Service inst) \<Longrightarrow> handleServiceRegistration ''POST'' (Some inst) srv = (400, srv)"
  by (simp add: handleServiceRegistration_def)

lemma isReserved_api: "isReservedServiceName ''api''"
  by (simp add: isReservedServiceName_def reservedServiceNames_def)

lemma isReserved_underscore: "isReservedServiceName (CHR ''_'' # n)"
  by (simp add: isReservedServiceName_def HasPrefix_def)

text \<open>Claim C10. \<open>NotifyMsg\<close> applies every well-formed register delta without looking at
  the service name: the instance is upserted into its service's list, each subscriber is handed
  the new snapshot, and nothing is queued for broadcast. This holds for every instance, so
  also for one whose service name is \<open>api\<close>, starts with \<open>_\<close> or is empty, while the
  control API answers 400 to such an instance and leaves the server as it was.\<close>

theorem NotifyMsg_register_unconditional:
  "services (NotifyMsg (register_msg inst) order s) = upsert_service inst (services s)
   \<and> inst \<in> set (elems (lookup (services (NotifyMsg (register_msg inst) order s)) (Service inst)))
   \<and> delivered (NotifyMsg (register_msg inst) order s) =
       delivered s @ map (\<lambda>fn. (fn, copy_services (upsert_service inst (services s)))) (onChange s)
   \<and> broadcasts (NotifyMsg (register_msg inst) order s) = broadcasts s
   \<and> handleServiceRegistration ''POST'' (Some (inst\<lparr>Service := ''api''\<rparr>)) srv = (400, srv)
   \<and> handleServiceRegistration ''POST'' (Some (inst\<lparr>Service := CHR ''_'' # n\<rparr>)) srv = (400, srv)
   \<and> handleServiceRegistration ''POST'' (Some (inst\<lparr>Service := []\<rparr>)) srv = (400, srv)"
proof -
  have a: "inst \<in> set (elems (lookup (upsert_service inst (services s)) (Service inst)))"
    by (simp add: upsert_service_eq upsert_member)
  have b: "handleServiceRegistration ''POST'' (Some (inst\<lparr>Service := ''api''\<rparr>)) srv = (400, srv)"
    by (rule handle_reserved) (simp add: isReserved_api)
  have c: "handleServiceRegistration ''POST'' (Some (inst\<lparr>Service := CHR ''_'' # n\<rparr>)) srv = (400, srv)"
    by (rule handle_reserved) (simp add: isReserved_underscore)
  have d: "handleServiceRegistration ''POST'' (Some (inst\<lparr>Service := []\<rparr>)) srv = (400, srv)"
    by (simp add: handleServiceRegistration_def)
  from a b c d show ?thesis
    by (simp add: NotifyMsg_register notifyListeners_def)
qed

section \<open>The register endpoint\<close>

lemma not_reserved_web: "\<not> isReservedServiceName ''web''"
  by (simp add: isReservedServiceName_def reservedServiceNames_def HasPrefix_def)

text \<open>Claim C7, as stated, fails: the handler checks only \<open>Port == 0\<close>, so a body with
  port 70000 is answered 201 and the instance is stored.\<close>

theorem register_accepts_port_70000:
  "Port inst_big = 70000
   \<and> fst (handleServiceRegistration ''POST'' (Some inst_big) server0) = 201
   \<and> lookup (services (discovery server0)) ''web'' = None
   \<and> lookup (services (discovery (snd (handleServiceRegistration ''POST'' (Some inst_big) server0)))) ''web''
       = Some [inst_big]"
  by (simp add: handleServiceRegistration_def inst_big_def not_reserved_web server0_def
      Register_def json_Marshal_def upsert_service_eq New_def)

text \<open>Claim C7, amended. Every instance the register endpoint accepts (201) has a port
  different from 0; a POST whose body has port 0 is answered 400 and the server, with its
  registry, is unchanged.\<close>

theorem register_requires_nonzero_port:
  "(fst (handleServiceRegistration method body srv) = 201 \<longrightarrow>
      (\<exists>inst. body = Some inst \<and> Port inst \<noteq> 0))
   \<and> (Port inst = 0 \<longrightarrow> handleServiceRegistration ''POST'' (Some inst) srv = (400, srv))"
  by (auto simp: handleServiceRegistration_def split: option.splits if_splits prod.splits)

theorem register_requires_nonzero_port_witness:
  "fst (handleServiceRegistration ''POST'' (Some inst_b) server0) = 201
   \<and> Port inst_b \<noteq> 0
   \<and> Port inst_port0 = 0
   \<and> handleServiceRegistration ''POST'' (Some inst_port0) server0 = (400, server0)"
proof -
  have h1: "fst (handleServiceRegistration ''POST'' (Some inst_b) server0) = 201"
    by (simp add: handleServiceRegistration_def inst_b_def not_reserved_web
      Register_def json_Marshal_def)
  have h2: "Port inst_port0 = 0" by (simp add: inst_port0_def)
  from register_requires_nonzero_port [of "''POST''" "Some inst_b" server0 inst_port0] h1 h2
  show ?thesis by auto
qed

section \<open>Copies returned by the read operations\<close>

text \<open>Claim C4. \<open>GetInstances\<close> and \<open>GetAllServices\<close> copy the slice of instances, and each
  copied instance still points to the metadata map of the registry's own instance. In the
  state reached by registering \<open>inst_a\<close>, whose metadata map holds \<open>weight = 1\<close>, a caller
  that assigns \<open>weight = 9\<close> through the instance returned by \<open>GetInstances\<close> changes what
  the registry's instance reads for \<open>weight\<close>.\<close>

theorem GetInstances_shares_metadata:
  "GetInstances ''web'' known_state = Some [inst_a]
   \<and> GetAllServices known_state ''web'' = Some (Some [inst_a])
   \<and> lookup (services known_state) ''web'' = Some [inst_a]
   \<and> metadata_get example_mheap inst_a ''weight'' = Some ''1''
   \<and> (\<exists>mh'. metadata_set (hd (elems (GetInstances ''web'' known_state))) ''weight'' ''9'' example_mheap = Some mh'
        \<and> metadata_get mh' (hd (elems (lookup (services known_state) ''web''))) ''weight'' = Some ''9'')"
  by (simp add: GetInstances_def GetAllServices_def copy_services_def known_state_eq)
     (simp add: metadata_get_def metadata_set_def inst_a_def example_mheap_def)

section \<open>Rebuilding pools on a registry notification\<close>

lemma RoundRobin_Next_fresh:
  "active_of h bs \<noteq> [] \<Longrightarrow>
   fst (RoundRobin_Next \<lparr>rr_backends = bs, current = 0\<rparr> h) =
     Some (active_of h bs ! (1 mod length (active_of h bs)))"
  by (auto simp: RoundRobin_Next_def Let_def active_of_def)

lemma lb_Next_RR_fst: "fst (lb_Next (RR rr) h) = fst (RoundRobin_Next rr h)"
  by (simp split: prod.splits)

lemma active_of_all: "(\<forall>b \<in> set bs. Active (h b)) \<Longrightarrow> active_of h bs = bs"
  by (simp add: active_of_def)

lemma add_instances_RR:
  "\<exists>h'. add_instances lib mh insts (RR rr, h, a) =
          (RR (rr\<lparr>rr_backends := rr_backends rr @ [a ..< a + length (parsed_instances lib insts)]\<rparr>),
           h', a + length (parsed_instances lib insts))
        \<and> (\<forall>b. b < a \<longrightarrow> h' b = h b)
        \<and> (\<forall>b. a \<le> b \<and> b < a + length (parsed_instances lib insts) \<longrightarrow> Active (h' b))"
proof (induction insts arbitrary: rr h a)
  case Nil
  show ?case by (auto simp: parsed_instances_def)
next
  case (Cons inst rest)
  let ?u = "url_Parse lib (''http://'' @ Address inst @ '':'' @ fmt_d lib (Port inst))"
  show ?case
  proof (cases ?u)
    case None
    then have p: "parsed_instances lib (inst # rest) = parsed_instances lib rest"
      by (simp add: parsed_instances_def)
    from None have "add_instances lib mh (inst # rest) (RR rr, h, a) = add_instances lib mh rest (RR rr, h, a)"
      by simp
    then show ?thesis using Cons.IH [of rr h a] unfolding p by simp
  next
    case (Some u)
    let ?n = "length (parsed_instances lib rest)"
    let ?h1 = "h(a := \<lparr>URL = u, Weight = instance_weight lib mh inst, Active = True, Connections = 0\<rparr>)"
    let ?rr1 = "rr\<lparr>rr_backends := rr_backends rr @ [a]\<rparr>"
    from Some have p: "length (parsed_instances lib (inst # rest)) = Suc ?n"
      by (simp add: parsed_instances_def)
    from Some have step: "add_instances lib mh (inst # rest) (RR rr, h, a) =
        add_instances lib mh rest (RR ?rr1, ?h1, Suc a)"
      by (simp add: RoundRobin_Add_def Let_def)
    from Cons.IH [of ?rr1 ?h1 "Suc a"] obtain h' where
      eq: "add_instances lib mh rest (RR ?rr1, ?h1, Suc a) =
          (RR (?rr1\<lparr>rr_backends := rr_backends ?rr1 @ [Suc a ..< Suc a + ?n]\<rparr>), h', Suc a + ?n)"
      and frame: "\<forall>b. b < Suc a \<longrightarrow> h' b = ?h1 b"
      and act: "\<forall>b. Suc a \<le> b \<and> b < Suc a + ?n \<longrightarrow> Active (h' b)"
      by blast
    have e1: "add_instances lib mh (inst # rest) (RR rr, h, a) =
          (RR (rr\<lparr>rr_backends := rr_backends rr @ [a ..< a + Suc ?n]\<rparr>), h', a + Suc ?n)"
      unfolding step eq by (simp del: upt_Suc add: upt_conv_Cons)
    have e2: "\<forall>b. b < a \<longrightarrow> h' b = h b"
      using frame by simp
    have "Active (h' a)" using frame by simp
    then have e3: "\<forall>b. a \<le> b \<and> b < a + Suc ?n \<longrightarrow> Active (h' b)"
      using act by (metis Suc_leI add_Suc add_Suc_right le_neq_implies_less)
    from e1 e2 e3 show ?thesis unfolding p by blast
  qed
qed

lemma add_instances_LC:
  "\<exists>h'. add_instances lib mh insts (LC lc, h, a) =
          (LC (lc\<lparr>lc_backends := lc_backends lc @ [a ..< a + length (parsed_instances lib insts)]\<rparr>),
           h', a + length (parsed_instances lib insts))
        \<and> (\<forall>b. b < a \<longrightarrow> h' b = h b)
        \<and> (\<forall>b. a \<le> b \<and> b < a + length (parsed_instances lib insts) \<longrightarrow> Active (h' b))"
proof (induction insts arbitrary: lc h a)
  case Nil
  show ?case by (auto simp: parsed_instances_def)
next
  case (Cons inst rest)
  let ?u = "url_Parse lib (''http://'' @ Address inst @ '':'' @ fmt_d lib (Port inst))"
  show ?case
  proof (cases ?u)
    case None
    then have p: "parsed_instances lib (inst # rest) = parsed_instances lib rest"
      by (simp add: parsed_instances_def)
    from None have "add_instances lib mh (inst # rest) (LC lc, h, a) = add_instances lib mh rest (LC lc, h, a)"
      by simp
    then show ?thesis using Cons.IH [of lc h a] unfolding p by simp
  next
    case (Some u)
    let ?n = "length (parsed_instances lib rest)"
    let ?h1 = "h(a := \<lparr>URL = u, Weight = instance_weight lib mh inst, Active = True, Connections = 0\<rparr>)"
    let ?lc1 = "lc\<lparr>lc_backends := lc_backends lc @ [a]\<rparr>"
    from Some have p: "length (parsed_instances lib (inst # rest)) = Suc ?n"
      by (simp add: parsed_instances_def)
    from Some have step: "add_instances lib mh (inst # rest) (LC lc, h, a) =
        add_instances lib mh rest (LC ?lc1, ?h1, Suc a)"
      by (simp add: LeastConnection_Add_def Let_def)
    from Cons.IH [of ?lc1 ?h1 "Suc a"] obtain h' where
      eq: "add_instances lib mh rest (LC ?lc1, ?h1, Suc a) =
          (LC (?lc1\<lparr>lc_backends := lc_backends ?lc1 @ [Suc a ..< Suc a + ?n]\<rparr>), h', Suc a + ?n)"
      and frame: "\<forall>b. b < Suc a \<longrightarrow> h' b = ?h1 b"
      and act: "\<forall>b. Suc a \<le> b \<and> b < Suc a + ?n \<longrightarrow> Active (h' b)"
      by blast
    have e1: "add_instances lib mh (inst # rest) (LC lc, h, a) =
          (LC (lc\<lparr>lc_backends := lc_backends lc @ [a ..< a + Suc ?n]\<rparr>), h', a + Suc ?n)"
      unfolding step eq by (simp del: upt_Suc add: upt_conv_Cons)
    have e2: "\<forall>b. b < a \<longrightarrow> h' b = h b"
      using frame by simp
    have "Active (h' a)" using frame by simp
    then have e3: "\<forall>b. a \<le> b \<and> b < a + Suc ?n \<longrightarrow> Active (h' b)"
      using act by (metis Suc_leI add_Suc add_Suc_right le_neq_implies_less)
    from e1 e2 e3 show ?thesis unfolding p by blast
  qed
qed

lemma add_instances_fresh:
  "\<exists>h'. add_instances lib mh insts (fresh_pool lc a 0, h, a) =
          (fresh_pool lc a (length (parsed_instances lib insts)), h',
           a + length (parsed_instances lib insts))
        \<and> (\<forall>b. b < a \<longrightarrow> h' b = h b)
        \<and> (\<forall>b. a \<le> b \<and> b < a + length (parsed_instances lib insts) \<longrightarrow> Active (h' b))"
proof (cases lc)
  case True
  then show ?thesis using add_instances_LC [of lib mh insts "\<lparr>lc_backends = []\<rparr>" h a]
    by (simp add: fresh_pool_def)
next
  case False
  then show ?thesis
    using add_instances_RR [of lib mh insts "\<lparr>rr_backends = [], current = 0\<rparr>" h a]
    by (simp add: fresh_pool_def)
qed

lemma updateLoadBalancerBackends_eq:
  "\<exists>h'. updateLoadBalancerBackends lib mh k insts srv =
      srv\<lparr>loadBalancers := (loadBalancers srv)(k \<mapsto>
             fresh_pool (is_LC (loadBalancers srv k)) (next_addr srv)
               (length (parsed_instances lib insts))),
          router := (if loadBalancers srv k = None
                     then AddRoute (''/'' @ k @ ''/*'') k wildcard_methods (router srv)
                     else router srv),
          store := h',
          next_addr := next_addr srv + length (parsed_instances lib insts)\<rparr>
    \<and> (\<forall>b. b < next_addr srv \<longrightarrow> h' b = store srv b)
    \<and> (\<forall>b. next_addr srv \<le> b \<and> b < next_addr srv + length (parsed_instances lib insts)
          \<longrightarrow> Active (h' b))"
proof -
  let ?n = "length (parsed_instances lib insts)"
  let ?a = "next_addr srv"
  let ?lc = "is_LC (loadBalancers srv k)"
  from add_instances_fresh [of lib mh insts ?lc ?a "store srv"] obtain h' where
    eq: "add_instances lib mh insts (fresh_pool ?lc ?a 0, store srv, ?a) =
           (fresh_pool ?lc ?a ?n, h', ?a + ?n)"
    and frame: "\<forall>b. b < ?a \<longrightarrow> h' b = store srv b"
    and act: "\<forall>b. ?a \<le> b \<and> b < ?a + ?n \<longrightarrow> Active (h' b)"
    by blast
  have "updateLoadBalancerBackends lib mh k insts srv =
      srv\<lparr>loadBalancers := (loadBalancers srv)(k \<mapsto> fresh_pool ?lc ?a ?n),
          router := (if loadBalancers srv k = None
                     then AddRoute (''/'' @ k @ ''/*'') k wildcard_methods (router srv)
                     else router srv),
          store := h', next_addr := ?a + ?n\<rparr>"
  proof (cases "loadBalancers srv k")
    case None
    then have "fresh_pool ?lc ?a 0 = RR NewRoundRobin"
      by (simp add: fresh_pool_def is_LC_def NewRoundRobin_def)
    with eq None show ?thesis
      by (simp add: updateLoadBalancerBackends_def)
  next
    case (Some lb)
    then have "(case lb of LC _ \<Rightarrow> LC NewLeastConnection | _ \<Rightarrow> RR NewRoundRobin)
        = fresh_pool ?lc ?a 0"
      by (simp add: fresh_pool_def is_LC_def NewRoundRobin_def NewLeastConnection_def
          split: LoadBalancer.splits)
    with eq Some show ?thesis
      by (simp add: updateLoadBalancerBackends_def)
  qed
  with frame act show ?thesis by blast
qed

lemma update_lb_same:
  "loadBalancers (updateLoadBalancerBackends lib mh k insts srv) k =
     Some (fresh_pool (is_LC (loadBalancers srv k)) (next_addr srv)
        (length (parsed_instances lib insts)))"
  using updateLoadBalancerBackends_eq [of lib mh k insts srv] by auto

lemma update_lb_other:
  "k' \<noteq> k \<Longrightarrow> loadBalancers (updateLoadBalancerBackends lib mh k insts srv) k' = loadBalancers srv k'"
  using updateLoadBalancerBackends_eq [of lib mh k insts srv] by auto

lemma update_next_addr:
  "next_addr (updateLoadBalancerBackends lib mh k insts srv) =
     next_addr srv + length (parsed_instances lib insts)"
  using updateLoadBalancerBackends_eq [of lib mh k insts srv] by auto

lemma update_store_frame:
  "b < next_addr srv \<Longrightarrow> store (updateLoadBalancerBackends lib mh k insts srv) b = store srv b"
  using updateLoadBalancerBackends_eq [of lib mh k insts srv] by auto

lemma update_store_active:
  "next_addr srv \<le> b \<Longrightarrow> b < next_addr srv + length (parsed_instances lib insts)
   \<Longrightarrow> Active (store (updateLoadBalancerBackends lib mh k insts srv) b)"
  using updateLoadBalancerBackends_eq [of lib mh k insts srv] by auto

lemma serviceChanged_Cons:
  "serviceChanged lib mh snap (k # order) srv =
     serviceChanged lib mh snap order
       (case snap k of None \<Rightarrow> srv
        | Some instances \<Rightarrow> updateLoadBalancerBackends lib mh k (elems instances) srv)"
  by (simp add: serviceChanged_def)

lemma serviceChanged_Nil [simp]: "serviceChanged lib mh snap [] srv = srv"
  by (simp add: serviceChanged_def)

lemma serviceChanged_next_addr:
  "next_addr srv \<le> next_addr (serviceChanged lib mh snap order srv)"
proof (induction order arbitrary: srv)
  case Nil
  show ?case by simp
next
  case (Cons k order)
  show ?case unfolding serviceChanged_Cons
    using Cons [of "case snap k of None \<Rightarrow> srv
        | Some instances \<Rightarrow> updateLoadBalancerBackends lib mh k (elems instances) srv"]
    by (auto simp: update_next_addr split: option.splits)
qed

lemma serviceChanged_store_frame:
  "b < next_addr srv \<Longrightarrow> store (serviceChanged lib mh snap order srv) b = store srv b"
proof (induction order arbitrary: srv)
  case Nil
  show ?case by simp
next
  case (Cons k order)
  let ?srv1 = "case snap k of None \<Rightarrow> srv
        | Some instances \<Rightarrow> updateLoadBalancerBackends lib mh k (elems instances) srv"
  have le: "next_addr srv \<le> next_addr ?srv1"
    by (simp add: update_next_addr split: option.splits)
  have fr: "store ?srv1 b = store srv b"
    using Cons.prems by (simp add: update_store_frame split: option.splits)
  from Cons.prems le have "b < next_addr ?srv1" by simp
  then have "store (serviceChanged lib mh snap order ?srv1) b = store ?srv1 b"
    by (rule Cons.IH)
  with fr show ?case unfolding serviceChanged_Cons by simp
qed

lemma serviceChanged_lb_other:
  "k \<notin> set order \<Longrightarrow> loadBalancers (serviceChanged lib mh snap order srv) k = loadBalancers srv k"
proof (induction order arbitrary: srv)
  case Nil
  show ?case by simp
next
  case (Cons k' order)
  let ?srv1 = "case snap k' of None \<Rightarrow> srv
        | Some instances \<Rightarrow> updateLoadBalancerBackends lib mh k' (elems instances) srv"
  from Cons.prems have "k \<noteq> k'" "k \<notin> set order" by auto
  then have "loadBalancers (serviceChanged lib mh snap order ?srv1) k = loadBalancers ?srv1 k"
    and "loadBalancers ?srv1 k = loadBalancers srv k"
    using Cons.IH by (auto simp: update_lb_other split: option.splits)
  then show ?case unfolding serviceChanged_Cons by simp
qed

lemma serviceChanged_pool:
  assumes "distinct order" and "k \<in> set order" and "snap k = Some instances"
  shows "\<exists>a. next_addr srv \<le> a
     \<and> loadBalancers (serviceChanged lib mh snap order srv) k =
         Some (fresh_pool (is_LC (loadBalancers srv k)) a
            (length (parsed_instances lib (elems instances))))
     \<and> (\<forall>b. a \<le> b \<and> b < a + length (parsed_instances lib (elems instances)) \<longrightarrow>
           Active (store (serviceChanged lib mh snap order srv) b))"
  using assms
proof (induction order arbitrary: srv)
  case Nil
  then show ?case by simp
next
  case (Cons k' order)
  let ?n = "length (parsed_instances lib (elems instances))"
  let ?srv1 = "case snap k' of None \<Rightarrow> srv
        | Some instances \<Rightarrow> updateLoadBalancerBackends lib mh k' (elems instances) srv"
  have le: "next_addr srv \<le> next_addr ?srv1"
    by (simp add: update_next_addr split: option.splits)
  show ?case
  proof (cases "k = k'")
    case True
    with Cons.prems have notin: "k \<notin> set order" by simp
    from True Cons.prems(3) have s1: "?srv1 = updateLoadBalancerBackends lib mh k (elems instances) srv"
      by simp
    have a1: "loadBalancers (serviceChanged lib mh snap order ?srv1) k =
        Some (fresh_pool (is_LC (loadBalancers srv k)) (next_addr srv) ?n)"
      using serviceChanged_lb_other [OF notin, of lib mh snap ?srv1] unfolding s1
      by (simp add: update_lb_same)
    have a2: "Active (store (serviceChanged lib mh snap order ?srv1) b)"
      if "next_addr srv \<le> b" and "b < next_addr srv + ?n" for b
    proof -
      from that have "b < next_addr ?srv1" unfolding s1 by (simp add: update_next_addr)
      then have "store (serviceChanged lib mh snap order ?srv1) b = store ?srv1 b"
        by (rule serviceChanged_store_frame)
      then show ?thesis using that unfolding s1 by (simp add: update_store_active)
    qed
    from a1 a2 show ?thesis unfolding serviceChanged_Cons by blast
  next
    case False
    with Cons.prems have "distinct order" "k \<in> set order" by auto
    from Cons.IH [where srv = ?srv1, OF this Cons.prems(3)] obtain a where
      i1: "next_addr ?srv1 \<le> a"
      and i2: "loadBalancers (serviceChanged lib mh snap order ?srv1) k =
         Some (fresh_pool (is_LC (loadBalancers ?srv1 k)) a ?n)"
      and i3: "\<forall>b. a \<le> b \<and> b < a + ?n \<longrightarrow> Active (store (serviceChanged lib mh snap order ?srv1) b)"
      by blast
    have same: "loadBalancers ?srv1 k = loadBalancers srv k"
      using False by (simp add: update_lb_other split: option.splits)
    from le i1 have j1: "next_addr srv \<le> a" by (rule le_trans)
    from i2 have j2: "loadBalancers (serviceChanged lib mh snap order ?srv1) k =
         Some (fresh_pool (is_LC (loadBalancers srv k)) a ?n)"
      unfolding same .
    from j1 j2 i3 show ?thesis unfolding serviceChanged_Cons by blast
  qed
qed

text \<open>Claim C9. When the subscriber runs on a delivered snapshot, visiting its services
  once each, every service \<open>k\<close> of the snapshot ends with a pool of the variant it had
  before (round-robin when it had none), built from scratch: its backends are the freshly
  allocated addresses \<open>a, ..., a + n - 1\<close>, one per instance whose URL parses, all active, and
  a round-robin pool has its counter at zero. Hence, whatever the counter of the previous
  pool was, the first \<open>Next\<close> on the rebuilt round-robin pool returns the active backend at
  index \<open>1 mod m\<close>, where \<open>m\<close> is the number of active backends at that moment (\<open>m = n\<close>
  right after the rebuild).\<close>

theorem serviceChanged_restarts_rotation:
  assumes "distinct order" and "k \<in> set order" and "snap k = Some instances"
  shows "\<exists>a. next_addr srv \<le> a
     \<and> loadBalancers (serviceChanged lib mh snap order srv) k =
         Some (fresh_pool (is_LC (loadBalancers srv k)) a
                 (length (parsed_instances lib (elems instances))))
     \<and> active_of (store (serviceChanged lib mh snap order srv))
          [a ..< a + length (parsed_instances lib (elems instances))]
         = [a ..< a + length (parsed_instances lib (elems instances))]
     \<and> (\<forall>h. active_of h [a ..< a + length (parsed_instances lib (elems instances))] \<noteq> [] \<longrightarrow>
          fst (lb_Next (fresh_pool False a (length (parsed_instances lib (elems instances)))) h) =
          Some (active_of h [a ..< a + length (parsed_instances lib (elems instances))]
                 ! (1 mod length (active_of h [a ..< a + length (parsed_instances lib (elems instances))]))))"
proof -
  let ?n = "length (parsed_instances lib (elems instances))"
  let ?srv' = "serviceChanged lib mh snap order srv"
  from serviceChanged_pool [where srv = srv and lib = lib and mh = mh and snap = snap
      and k = k and order = order and instances = instances, OF assms(1-3)]
  obtain a where
    a: "next_addr srv \<le> a"
    and p: "loadBalancers ?srv' k = Some (fresh_pool (is_LC (loadBalancers srv k)) a ?n)"
    and act: "\<forall>b. a \<le> b \<and> b < a + ?n \<longrightarrow> Active (store ?srv' b)"
    by blast
  from act have all: "active_of (store ?srv') [a ..< a + ?n] = [a ..< a + ?n]"
    by (simp add: active_of_all)
  have nx: "fst (lb_Next (fresh_pool False a ?n) h) =
          Some (active_of h [a ..< a + ?n] ! (1 mod length (active_of h [a ..< a + ?n])))"
    if "active_of h [a ..< a + ?n] \<noteq> []" for h
    unfolding fresh_pool_def if_False lb_Next_RR_fst using that by (rule RoundRobin_Next_fresh)
  from a p all nx show ?thesis by blast
qed

theorem serviceChanged_restarts_rotation_witness:
  "distinct [''web''] \<and> ''web'' \<in> set [''web'']
   \<and> ok_snapshot ''web'' = Some (Some [inst_a2, inst_b])
   \<and> loadBalancers rotated_server ''web'' = Some (RR \<lparr>rr_backends = [0, 1, 2], current = 41\<rparr>)
   \<and> loadBalancers (serviceChanged example_lib example_mheap ok_snapshot [''web''] rotated_server) ''web''
       = Some (RR \<lparr>rr_backends = [3, 4], current = 0\<rparr>)
   \<and> (\<exists>a. active_of (store (serviceChanged example_lib example_mheap ok_snapshot [''web''] rotated_server))
             [a ..< a + 2] = [a ..< a + 2]
         \<and> fst (lb_Next (fresh_pool False a 2)
                (store (serviceChanged example_lib example_mheap ok_snapshot [''web''] rotated_server)))
           = Some ([a ..< a + 2] ! (1 mod 2)))"
proof -
  have h1: "distinct [''web'']" by simp
  have h2: "''web'' \<in> set [''web'']" by simp
  have h3: "ok_snapshot ''web'' = Some (Some [inst_a2, inst_b])" by (simp add: ok_snapshot_def)
  have n: "length (parsed_instances example_lib (elems (Some [inst_a2, inst_b]))) = 2"
    by (simp add: parsed_instances_def example_lib_def)
  have old: "loadBalancers rotated_server ''web'' = Some (RR \<lparr>rr_backends = [0, 1, 2], current = 41\<rparr>)"
    by (simp add: rotated_server_def)
  have new: "loadBalancers (serviceChanged example_lib example_mheap ok_snapshot [''web''] rotated_server) ''web''
       = Some (RR \<lparr>rr_backends = [3, 4], current = 0\<rparr>)"
    by (simp add: serviceChanged_def h3 updateLoadBalancerBackends_def rotated_server_def server0_def
        example_lib_def NewRoundRobin_def RoundRobin_Add_def)
  from serviceChanged_restarts_rotation [where lib = example_lib and mh = example_mheap
      and srv = rotated_server and snap = ok_snapshot and k = "''web''" and order = "[''web'']"
      and instances = "Some [inst_a2, inst_b]", OF h1 h2 h3]
  obtain a where
    f1: "active_of (store (serviceChanged example_lib example_mheap ok_snapshot [''web''] rotated_server))
             [a ..< a + 2] = [a ..< a + 2]"
    and f2: "\<forall>h. active_of h [a ..< a + 2] \<noteq> [] \<longrightarrow>
          fst (lb_Next (fresh_pool False a 2) h) =
          Some (active_of h [a ..< a + 2] ! (1 mod length (active_of h [a ..< a + 2])))"
    unfolding n by blast
  let ?st = "store (serviceChanged example_lib example_mheap ok_snapshot [''web''] rotated_server)"
  have ne: "active_of ?st [a ..< a + 2] \<noteq> []" unfolding f1 by simp
  have "fst (lb_Next (fresh_pool False a 2) ?st) =
          Some (active_of ?st [a ..< a + 2] ! (1 mod length (active_of ?st [a ..< a + 2])))"
    using f2 ne by blast
  then have "fst (lb_Next (fresh_pool False a 2) ?st) = Some ([a ..< a + 2] ! (1 mod 2))"
    unfolding f1 by simp
  with f1 have "\<exists>a. active_of ?st [a ..< a + 2] = [a ..< a + 2]
         \<and> fst (lb_Next (fresh_pool False a 2) ?st) = Some ([a ..< a + 2] ! (1 mod 2))"
    by blast
  with h1 h2 h3 old new show ?thesis by blast
qed

end
